theory Spec2Isabelle
  imports Complex_Main "HOL-Library.FSet" "HOL-Library.Extended_Nat"
begin

section \<open>Boolean formulas of the satisfiability backend\<close>

text \<open>
  The source names a variable by formatting a rule name, the input tuple (state, character)
  and, for a one-hot member, the output value into a string
  (\<^verbatim>\<open>'{}_{}'.format(name, ...)\<close>, \<^verbatim>\<open>'{}_{}__{}'.format(name, ..., output_val)\<close>).
  Two variables are the same exactly when these arguments are the same, so a variable is
  modelled by the arguments themselves.
\<close>

datatype symbol = Sym string "nat \<times> nat" "nat option"

text \<open>
  The formulas the program builds: a variable, \<^verbatim>\<open>sc.Not\<close>, \<^verbatim>\<open>sc.And\<close> over the
  members of a Python set, and \<^verbatim>\<open>sc.ExactlyOne\<close> over a list.
\<close>

datatype formula =
    Symbol symbol
  | Not_f formula
  | And_f "formula fset"
  | ExactlyOne "formula list"

type_synonym assignment = "symbol \<Rightarrow> bool"

text \<open>The value of a formula under the model of the last successful solve.\<close>

primrec get_py_value :: "assignment \<Rightarrow> formula \<Rightarrow> bool" where
  "get_py_value m (Symbol s) = m s"
| "get_py_value m (Not_f f) = (\<not> get_py_value m f)"
| "get_py_value m (And_f fs) = fBall (fimage (get_py_value m) fs) id"
| "get_py_value m (ExactlyOne fs) = (length (filter id (map (get_py_value m) fs)) = 1)"

section \<open>Errors\<close>

datatype error =
    UnsatException
  | AssertionError
  | KeyError
  | TypeError
  | NameError
  | SolverError

section \<open>The solver session and the helper object\<close>

text \<open>
  The solver session holds the asserted formulas and, after a successful solve, a model.
  The backend itself is external: it is a parameter \<open>be\<close> that maps the asserted formulas
  to a model or to \<open>None\<close> (unsatisfiable).
\<close>

record solver =
  assertions :: "formula list"
  model :: "assignment option"

type_synonym backend = "formula list \<Rightarrow> assignment option"

text \<open>
  A rule table maps (state, character) to \<^verbatim>\<open>None\<close> (domain of one value), one variable
  (domain of two values) or a list of variables (larger domain).
\<close>

datatype rule_val = NoneVal | Single formula | OneHot "formula list"

type_synonym rules = "((nat \<times> nat) \<times> rule_val) list"

record helper =
  solver :: solver
  n_dirs :: nat
  n_chars :: nat
  n_states :: nat
  direction_rules :: rules
  write_rules :: rules
  state_rules :: rules
  dirty_variables :: "formula fset"
  dirty_buffer :: "formula fset"

definition dirs :: "helper \<Rightarrow> nat list" where
  "dirs h = [0..<n_dirs h]"

definition chars_plus :: "helper \<Rightarrow> nat list" where
  "chars_plus h = [0..<n_chars h + 1]"

definition states :: "helper \<Rightarrow> nat list" where
  "states h = [0..<n_states h]"

subsection \<open>\<^verbatim>\<open>_rule_vars\<close>\<close>

definition rule_val_for :: "string \<Rightarrow> nat list \<Rightarrow> nat \<times> nat \<Rightarrow> rule_val" where
  "rule_val_for name to_domain input_tup =
     (if length to_domain = 2 then Single (Symbol (Sym name input_tup None))
      else if length to_domain > 2 then
        OneHot (map (\<lambda>output_val. Symbol (Sym name input_tup (Some output_val))) to_domain)
      else NoneVal)"

definition rule_vars :: "nat list \<Rightarrow> nat list \<Rightarrow> string \<Rightarrow> nat list \<Rightarrow> error + rules" where
  "rule_vars sts chs name to_domain =
     (if \<not> length to_domain \<ge> 1 then Inl AssertionError
      else Inr (map (\<lambda>input_tup. (input_tup, rule_val_for name to_domain input_tup))
                  (List.product sts chs)))"

subsection \<open>\<^verbatim>\<open>add_base_constraints\<close>\<close>

fun add_assertion :: "formula \<Rightarrow> solver \<Rightarrow> solver" where
  "add_assertion f s = s\<lparr>assertions := assertions s @ [f]\<rparr>"

fun exactly_one_of :: "rule_val \<Rightarrow> error + formula" where
  "exactly_one_of (OneHot varset) = Inr (ExactlyOne varset)"
| "exactly_one_of _ = Inl TypeError"

fun assert_varsets :: "rule_val list \<Rightarrow> solver \<Rightarrow> error + solver" where
  "assert_varsets [] s = Inr s"
| "assert_varsets (varset # rest) s =
     (case exactly_one_of varset of
        Inl e \<Rightarrow> Inl e
      | Inr justone \<Rightarrow> assert_varsets rest (add_assertion justone s))"

fun add_base_constraints_loop :: "(nat list \<times> rules) list \<Rightarrow> solver \<Rightarrow> error + solver" where
  "add_base_constraints_loop [] s = Inr s"
| "add_base_constraints_loop ((domain, rules) # rest) s =
     (if length domain < 2 then add_base_constraints_loop rest s
      else if length domain = 2 then add_base_constraints_loop rest s
      else (case assert_varsets (map snd rules) s of
              Inl e \<Rightarrow> Inl e
            | Inr s' \<Rightarrow> add_base_constraints_loop rest s'))"

definition add_base_constraints :: "helper \<Rightarrow> error + helper" where
  "add_base_constraints h =
     (case add_base_constraints_loop
             [(dirs h, direction_rules h),
              (chars_plus h, write_rules h),
              (states h, state_rules h)] (solver h) of
        Inl e \<Rightarrow> Inl e
      | Inr s \<Rightarrow> Inr (h\<lparr>solver := s\<rparr>))"

subsection \<open>\<^verbatim>\<open>BoolSatHelper.__init__\<close>\<close>

text \<open>
  The arguments are the sizes of the environment's direction and character spaces and
  the number of states; the solver session starts without assertions and without a model.
\<close>

definition helper_init :: "nat \<Rightarrow> nat \<Rightarrow> nat \<Rightarrow> error + helper" where
  "helper_init nd nc ns =
     (let sts = [0..<ns]; chs = [0..<nc + 1] in
      case rule_vars sts chs ''dir_rule'' [0..<nd] of
        Inl e \<Rightarrow> Inl e
      | Inr dr \<Rightarrow>
     (case rule_vars sts chs ''write_rule'' chs of
        Inl e \<Rightarrow> Inl e
      | Inr wr \<Rightarrow>
     (case rule_vars sts chs ''state_rule'' sts of
        Inl e \<Rightarrow> Inl e
      | Inr sr \<Rightarrow>
          add_base_constraints
            \<lparr>solver = \<lparr>assertions = [], model = None\<rparr>,
             n_dirs = nd, n_chars = nc, n_states = ns,
             direction_rules = dr, write_rules = wr, state_rules = sr,
             dirty_variables = {||}, dirty_buffer = {||}\<rparr>)))"

subsection \<open>\<^verbatim>\<open>resolve\<close> and \<^verbatim>\<open>clear_dirty\<close>\<close>

text \<open>
  \<^verbatim>\<open>resolve\<close> mutates the helper and may then raise; \<^verbatim>\<open>solve\<close> catches the exception
  and the mutations stay, so the result pairs the outcome with the helper.
\<close>

definition resolve :: "backend \<Rightarrow> helper \<Rightarrow> (error + unit) \<times> helper" where
  "resolve be h =
     (let s1 = (if dirty_variables h \<noteq> {||}
                then add_assertion (Not_f (And_f (dirty_variables h))) (solver h)
                else solver h);
          sat = be (assertions s1);
          h' = h\<lparr>solver := s1\<lparr>model := sat\<rparr>,
                 dirty_variables := {||}, dirty_buffer := {||}\<rparr>
      in (if sat = None then Inl UnsatException else Inr (), h'))"

definition clear_dirty :: "helper \<Rightarrow> helper" where
  "clear_dirty h = h\<lparr>dirty_variables := {||}, dirty_buffer := {||}\<rparr>"

subsection \<open>\<^verbatim>\<open>_lookup\<close>, \<^verbatim>\<open>get_action\<close>, \<^verbatim>\<open>get_state\<close>\<close>

text \<open>The loop over a one-hot list: the index and the formula of the first true member.\<close>

fun first_true :: "assignment \<Rightarrow> formula list \<Rightarrow> nat \<Rightarrow> (nat \<times> formula) option" where
  "first_true m [] i = None"
| "first_true m (formula # rest) i =
     (if get_py_value m formula then Some (i, formula) else first_true m rest (Suc i))"

text \<open>
  The value and the literal of one rule entry under a model: the body of \<^verbatim>\<open>_lookup\<close>
  up to the point where the literal is recorded. Asking the solver for the value of
  \<^verbatim>\<open>None\<close> is an error, and so is asking it without a model.
\<close>

fun decode :: "assignment \<Rightarrow> rule_val \<Rightarrow> error + (nat \<times> formula)" where
  "decode m (OneHot thing) =
     (case first_true m thing 0 of
        Some (ret, form) \<Rightarrow> Inr (ret, form)
      | None \<Rightarrow> Inl AssertionError)"
| "decode m (Single thing) =
     (let val = get_py_value m thing in
      Inr (if val then 1 else 0, if val then thing else Not_f thing))"
| "decode m NoneVal = Inl TypeError"

definition lookup :: "helper \<Rightarrow> rules \<Rightarrow> nat \<Rightarrow> nat \<Rightarrow> bool \<Rightarrow> error + (nat \<times> helper)" where
  "lookup h rules obs state buff =
     (case map_of rules (state, obs) of
        None \<Rightarrow> Inl KeyError
      | Some thing \<Rightarrow>
     (case model (solver h) of
        None \<Rightarrow> Inl SolverError
      | Some m \<Rightarrow>
     (case decode m thing of
        Inl e \<Rightarrow> Inl e
      | Inr (ret, form) \<Rightarrow>
          Inr (ret, if buff then h\<lparr>dirty_buffer := finsert form (dirty_buffer h)\<rparr>
                    else h\<lparr>dirty_variables := finsert form (dirty_variables h)\<rparr>))))"

type_synonym action = "nat \<times> nat \<times> int"

definition flush :: "helper \<Rightarrow> helper" where
  "flush h =
     (if dirty_buffer h \<noteq> {||}
      then h\<lparr>dirty_variables := dirty_variables h |\<union>| dirty_buffer h, dirty_buffer := {||}\<rparr>
      else h)"

definition get_action :: "helper \<Rightarrow> nat \<Rightarrow> nat \<Rightarrow> error + (action \<times> helper)" where
  "get_action h obs state =
     (let h1 = flush h in
      case lookup h1 (direction_rules h1) obs state True of
        Inl e \<Rightarrow> Inl e
      | Inr (dirno, h2) \<Rightarrow>
     (case lookup h2 (write_rules h2) obs state False of
        Inl e \<Rightarrow> Inl e
      | Inr (writeno, h3) \<Rightarrow>
          (let do_write = (if writeno = n_chars h3 then 0 else 1);
               to_write = min (int writeno) (int (n_chars h3) - 1)
           in Inr ((dirno, do_write, to_write), h3))))"

definition get_state :: "helper \<Rightarrow> nat \<Rightarrow> nat \<Rightarrow> error + (nat \<times> helper)" where
  "get_state h obs state =
     (if n_states h = 1 then Inr (0, h)
      else lookup h (state_rules h) obs state True)"

section \<open>The environment\<close>

text \<open>
  The environment is external. It is a state machine over its own state \<open>'e\<close> (which
  holds whatever the environment draws at random): \<^verbatim>\<open>reset\<close> gives the first
  observation, \<^verbatim>\<open>step\<close> gives observation, reward and the done flag. The task
  carries \<^verbatim>\<open>reward_threshold\<close> and \<^verbatim>\<open>trials\<close>.
\<close>

record 'e env =
  reset :: "'e \<Rightarrow> nat \<times> 'e"
  step :: "action \<Rightarrow> 'e \<Rightarrow> (nat \<times> real \<times> bool) \<times> 'e"
  reward_threshold :: real
  trials :: nat

section \<open>\<^verbatim>\<open>AlgorithmicPolicyRunner.run_episode\<close>\<close>

text \<open>
  The result of an episode: the returned pair, the helper and the environment as the
  episode leaves them, and the list of (observation, state) pairs at which the loop body
  ran. The source does not build that list; it is kept so that theorems can speak of
  step \<open>j\<close> of the episode.
\<close>

record 'e episode =
  ep_success :: bool
  ep_total_reward :: real
  ep_helper :: helper
  ep_env :: 'e
  visited :: "(nat \<times> nat) list"

text \<open>The \<^verbatim>\<open>while not done\<close> loop may run forever: not returning is \<open>None\<close>.\<close>

partial_function (option) run_episode_loop ::
  "'e env \<Rightarrow> helper \<Rightarrow> 'e \<Rightarrow> nat \<Rightarrow> nat \<Rightarrow> real \<Rightarrow> (nat \<times> nat) list
     \<Rightarrow> (error + 'e episode) option" where
  "run_episode_loop env h es obs state total_reward vis =
     (case get_action h obs state of
        Inl e \<Rightarrow> Some (Inl e)
      | Inr (action, h1) \<Rightarrow>
     (case get_state h1 obs state of
        Inl e \<Rightarrow> Some (Inl e)
      | Inr (state', h2) \<Rightarrow>
     (case step env action es of
        ((obs', reward, done), es') \<Rightarrow>
          if done
          then Some (Inr \<lparr>ep_success = reward > 0, ep_total_reward = total_reward + reward,
                          ep_helper = h2, ep_env = es', visited = vis @ [(obs, state)]\<rparr>)
          else run_episode_loop env h2 es' obs' state' (total_reward + reward)
                 (vis @ [(obs, state)]))))"

definition run_episode :: "'e env \<Rightarrow> helper \<Rightarrow> 'e \<Rightarrow> (error + 'e episode) option" where
  "run_episode env h es =
     (case reset env es of (obs, es') \<Rightarrow> run_episode_loop env h es' obs 0 0 [])"

section \<open>\<^verbatim>\<open>AlgorithmicSolver.try_model\<close>\<close>

definition max_eps :: nat where
  "max_eps = 100000"

text \<open>
  The variables of \<^verbatim>\<open>try_model\<close> when its loop is left: the counters \<^verbatim>\<open>i\<close> and
  \<^verbatim>\<open>goodeps\<close>, \<^verbatim>\<open>success\<close> and \<^verbatim>\<open>reward\<close> of the last episode (unbound
  before the first episode), the helper, the environment, and the steps of the last
  episode.
\<close>

record 'e evaluation =
  ev_i :: nat
  ev_goodeps :: nat
  ev_success :: "bool option"
  ev_reward :: "real option"
  ev_helper :: helper
  ev_env :: 'e
  ev_visited :: "(nat \<times> nat) list"

function try_model_loop ::
  "'e env \<Rightarrow> helper \<Rightarrow> 'e \<Rightarrow> nat \<Rightarrow> nat \<Rightarrow> bool option \<Rightarrow> real option
     \<Rightarrow> (nat \<times> nat) list \<Rightarrow> (error + 'e evaluation) option" where
  "try_model_loop env h es i goodeps success reward vis =
     (if i < max_eps then
        (case run_episode env h es of
           None \<Rightarrow> None
         | Some (Inl e) \<Rightarrow> Some (Inl e)
         | Some (Inr ep) \<Rightarrow>
             if \<not> ep_success ep
             then Some (Inr \<lparr>ev_i = i + 1, ev_goodeps = goodeps,
                             ev_success = Some (ep_success ep),
                             ev_reward = Some (ep_total_reward ep), ev_helper = ep_helper ep,
                             ev_env = ep_env ep, ev_visited = visited ep\<rparr>)
             else if ep_total_reward ep \<ge> reward_threshold env
             then Some (Inr \<lparr>ev_i = i + 1, ev_goodeps = goodeps + 1,
                             ev_success = Some (ep_success ep),
                             ev_reward = Some (ep_total_reward ep), ev_helper = ep_helper ep,
                             ev_env = ep_env ep, ev_visited = visited ep\<rparr>)
             else try_model_loop env (clear_dirty (ep_helper ep)) (ep_env ep) (i + 1)
                    (goodeps + 1) (Some (ep_success ep)) (Some (ep_total_reward ep))
                    (visited ep))
      else Some (Inr \<lparr>ev_i = i, ev_goodeps = goodeps, ev_success = success,
                      ev_reward = reward, ev_helper = h, ev_env = es, ev_visited = vis\<rparr>))"
  by pat_completeness auto
termination
  by (relation "measure (\<lambda>(env, h, es, i, goodeps, success, reward, vis). max_eps - i)") auto

declare try_model_loop.simps [simp del]

text \<open>
  After the loop \<^verbatim>\<open>try_model\<close> compares the last reward with the threshold; the
  warnings it logs have no effect on the result.
\<close>

definition try_model :: "'e env \<Rightarrow> helper \<Rightarrow> 'e \<Rightarrow> (error + bool \<times> 'e evaluation) option" where
  "try_model env h es =
     (case try_model_loop env h es 0 0 None None [] of
        None \<Rightarrow> None
      | Some (Inl e) \<Rightarrow> Some (Inl e)
      | Some (Inr ev) \<Rightarrow>
          (case ev_reward ev of
             None \<Rightarrow> Some (Inl NameError)
           | Some reward \<Rightarrow>
               if reward \<ge> reward_threshold env then Some (Inr (True, ev))
               else Some (Inr (False, ev))))"

section \<open>\<^verbatim>\<open>AlgorithmicSolver.solve\<close>\<close>

text \<open>
  \<^verbatim>\<open>solve\<close> returns a boolean from three places, each with its own log message:
  after \<^verbatim>\<open>UnsatException\<close>, after a successful \<^verbatim>\<open>try_model\<close>, and when the
  iterations are used up. The caller receives \<open>returned\<close>; \<open>exit_at\<close> records the place.
\<close>

datatype exit_point = Exhausted_possibilities | Solved | Used_up_iterations

record 'e outcome =
  returned :: bool
  exit_at :: exit_point
  iterations :: nat
  out_helper :: helper
  out_env :: 'e

text \<open>\<^verbatim>\<open>maxiters\<close> defaults to \<^verbatim>\<open>float('inf')\<close>, here \<open>\<infinity>\<close>.\<close>

partial_function (option) solve_loop ::
  "'e env \<Rightarrow> backend \<Rightarrow> enat \<Rightarrow> helper \<Rightarrow> 'e \<Rightarrow> nat \<Rightarrow> (error + 'e outcome) option" where
  "solve_loop env be maxiters h es i =
     (if enat i < maxiters then
        (case resolve be h of
           (Inl e, h1) \<Rightarrow>
             if e = UnsatException
             then Some (Inr \<lparr>returned = False, exit_at = Exhausted_possibilities,
                             iterations = i + 1, out_helper = h1, out_env = es\<rparr>)
             else Some (Inl e)
         | (Inr u, h1) \<Rightarrow>
             (case try_model env h1 es of
                None \<Rightarrow> None
              | Some (Inl e) \<Rightarrow> Some (Inl e)
              | Some (Inr (ok, ev)) \<Rightarrow>
                  if ok
                  then Some (Inr \<lparr>returned = True, exit_at = Solved, iterations = i + 1,
                                  out_helper = ev_helper ev, out_env = ev_env ev\<rparr>)
                  else solve_loop env be maxiters (ev_helper ev) (ev_env ev) (i + 1)))
      else Some (Inr \<lparr>returned = False, exit_at = Used_up_iterations, iterations = i,
                      out_helper = h, out_env = es\<rparr>))"

definition solve ::
  "'e env \<Rightarrow> backend \<Rightarrow> enat \<Rightarrow> helper \<Rightarrow> 'e \<Rightarrow> (error + 'e outcome) option" where
  "solve env be maxiters h es = solve_loop env be maxiters h es 0"

declare run_episode_loop.simps [code]
declare solve_loop.simps [code]

section \<open>Literals of a step\<close>

text \<open>
  Vocabulary for the theorems. Under a fixed model, a rule table and a key
  (observation, state) determine the literal that \<^verbatim>\<open>_lookup\<close> records: the set is empty
  when the lookup fails. A step's committed literal comes from the write rules; its
  decision pair comes from the direction rules and, unless there is only one state, from
  the state rules. \<open>after_steps h ks\<close> is the helper \<open>h\<close> with the provenance that the
  steps \<open>ks\<close> leave, and \<open>last_episode\<close> relates an evaluation to the episode it ran last.
\<close>

definition literal :: "assignment option \<Rightarrow> rules \<Rightarrow> nat \<times> nat \<Rightarrow> formula fset" where
  "literal mo rules key =
     (case key of (obs, state) \<Rightarrow>
      case map_of rules (state, obs) of
        None \<Rightarrow> {||}
      | Some thing \<Rightarrow>
     (case mo of
        None \<Rightarrow> {||}
      | Some m \<Rightarrow>
     (case decode m thing of
        Inl e \<Rightarrow> {||}
      | Inr (ret, form) \<Rightarrow> {|form|})))"

definition write_literal :: "helper \<Rightarrow> nat \<times> nat \<Rightarrow> formula fset" where
  "write_literal h key = literal (model (solver h)) (write_rules h) key"

definition direction_literal :: "helper \<Rightarrow> nat \<times> nat \<Rightarrow> formula fset" where
  "direction_literal h key = literal (model (solver h)) (direction_rules h) key"

definition state_literal :: "helper \<Rightarrow> nat \<times> nat \<Rightarrow> formula fset" where
  "state_literal h key =
     (if n_states h = 1 then {||} else literal (model (solver h)) (state_rules h) key)"

definition decision_pair :: "helper \<Rightarrow> nat \<times> nat \<Rightarrow> formula fset" where
  "decision_pair h key = direction_literal h key |\<union>| state_literal h key"

text \<open>A step that ran recorded one literal per rule table it read.\<close>

definition step_recorded :: "helper \<Rightarrow> nat \<times> nat \<Rightarrow> bool" where
  "step_recorded h key \<longleftrightarrow>
     (\<exists>w. write_literal h key = {|w|}) \<and> (\<exists>d. direction_literal h key = {|d|}) \<and>
     (n_states h = 1 \<or> (\<exists>s. state_literal h key = {|s|}))"

fun collect :: "('a \<Rightarrow> 'b fset) \<Rightarrow> 'a list \<Rightarrow> 'b fset" where
  "collect f [] = {||}"
| "collect f (x # xs) = f x |\<union>| collect f xs"

definition after_steps :: "helper \<Rightarrow> (nat \<times> nat) list \<Rightarrow> helper" where
  "after_steps h ks =
     h\<lparr>dirty_buffer := decision_pair h (last ks),
       dirty_variables := dirty_variables h |\<union>| dirty_buffer h |\<union>|
          collect (write_literal h) ks |\<union>| collect (decision_pair h) (butlast ks)\<rparr>"

definition last_episode :: "'e env \<Rightarrow> helper \<Rightarrow> 'e evaluation \<Rightarrow> 'e episode \<Rightarrow> bool" where
  "last_episode env h ev ep \<longleftrightarrow>
     (\<exists>hk esk. (hk = h \<or> hk = clear_dirty h) \<and> run_episode env hk esk = Some (Inr ep)) \<and>
     ev_success ev = Some (ep_success ep) \<and> ev_reward ev = Some (ep_total_reward ep) \<and>
     ev_visited ev = visited ep \<and> ev_env ev = ep_env ep \<and>
     ev_helper ev =
       (if ep_success ep \<and> \<not> ep_total_reward ep \<ge> reward_threshold env
        then clear_dirty h else ep_helper ep) \<and>
     (ep_success ep \<and> \<not> ep_total_reward ep \<ge> reward_threshold env \<longrightarrow> ev_i ev = max_eps)"

text \<open>The operations on a candidate change nothing of the helper but the two sets.\<close>

definition only_dirty_differs :: "helper \<Rightarrow> helper \<Rightarrow> bool" where
  "only_dirty_differs h h' \<longleftrightarrow>
     h' = h\<lparr>dirty_variables := dirty_variables h', dirty_buffer := dirty_buffer h'\<rparr>"

section \<open>Concrete instances\<close>

text \<open>
  A model that moves right and writes the character it reads (and does not write on the
  blank), and a helper with two directions, two characters and one state that holds it.
\<close>

definition copy_model :: assignment where
  "copy_model s =
     (case s of Sym name tup output_val \<Rightarrow>
        if name = ''dir_rule'' then True
        else if name = ''write_rule'' then output_val = Some (snd tup)
        else False)"

definition copy_helper :: helper where
  "copy_helper = snd (resolve (\<lambda>as. Some copy_model) (projr (helper_init 2 2 1)))"

text \<open>
  A model that always writes character 0, moves right and goes to state 1, in a helper
  with two states.
\<close>

definition zero_model :: assignment where
  "zero_model s =
     (case s of Sym name tup output_val \<Rightarrow>
        if name = ''write_rule'' then output_val = Some 0 else True)"

definition zero_helper :: helper where
  "zero_helper = snd (resolve (\<lambda>as. Some zero_model) (projr (helper_init 2 2 2)))"

text \<open>
  A copy task: the agent must write the characters of the input tape in order. A correct
  write earns 1, a wrong write ends the episode with -1, and so does running out of time;
  the episode ends when the whole tape has been written. Each reset starts the next round,
  and the tape may depend on the round.
\<close>

record copy_state =
  pos :: nat
  written :: nat
  clock :: nat
  round :: nat
  tape :: "nat list"

definition copy_obs :: "nat \<Rightarrow> nat list \<Rightarrow> nat \<Rightarrow> nat" where
  "copy_obs blank tp p = (if p < length tp then tp ! p else blank)"

definition copy_step ::
  "nat \<Rightarrow> action \<Rightarrow> copy_state \<Rightarrow> (nat \<times> real \<times> bool) \<times> copy_state" where
  "copy_step blank a s =
     (case a of (dir, w, c) \<Rightarrow>
        let p = (if dir = 1 then pos s + 1 else pos s - 1);
            correct = (w = 1 \<and> written s < length (tape s) \<and> c = int (tape s ! written s));
            wrong = (w = 1 \<and> \<not> correct);
            o' = (if correct then written s + 1 else written s);
            done = (wrong \<or> o' = length (tape s) \<or> clock s \<le> 1);
            reward = (if wrong then -1 else if correct then 1
                      else if clock s \<le> 1 then -1 else 0)
        in ((copy_obs blank (tape s) p, reward, done),
            s\<lparr>pos := p, written := o', clock := clock s - 1\<rparr>))"

definition copy_env ::
  "nat \<Rightarrow> (nat \<Rightarrow> nat list) \<Rightarrow> nat \<Rightarrow> real \<Rightarrow> nat \<Rightarrow> copy_state env" where
  "copy_env blank tapes limit thr tr =
     \<lparr>reset = (\<lambda>s. (copy_obs blank (tapes (round s)) 0,
                     \<lparr>pos = 0, written = 0, clock = limit, round = round s + 1,
                      tape = tapes (round s)\<rparr>)),
      step = copy_step blank,
      reward_threshold = thr, trials = tr\<rparr>"

definition start :: copy_state where
  "start = \<lparr>pos = 0, written = 0, clock = 0, round = 0, tape = []\<rparr>"

text \<open>The tapes of the rounds: first one character, then two.\<close>

definition growing :: "nat \<Rightarrow> nat list" where
  "growing n = (if n = 0 then [0] else [0, 1])"

text \<open>
  A backend that returns the first of a list of models that satisfies every assertion, the
  helper as the failed evaluation of \<open>zero_model\<close> on the growing tapes leaves it, and
  the environment at that point.
\<close>

definition try_models :: "assignment list \<Rightarrow> backend" where
  "try_models ms as = find (\<lambda>m. list_all (get_py_value m) as) ms"

definition failed_helper :: helper where
  "failed_helper = after_steps zero_helper [(0, 0), (1, 1)]"

definition failed_state :: copy_state where
  "failed_state = \<lparr>pos = 2, written = 1, clock = 8, round = 2, tape = [0, 1]\<rparr>"

section \<open>Evaluation of the concrete instances\<close>

lemma upt_small: "[0..<1] = [0]" "[0..<2] = [0, 1]" "[0..<3] = [0, 1, 2]"
  by (simp_all add: upt_rec)

lemmas helper_eval =
  helper_init_def rule_vars_def rule_val_for_def add_base_constraints_def
  dirs_def chars_plus_def states_def upt_small Let_def resolve_def

lemmas policy_eval =
  get_action_def get_state_def flush_def lookup_def clear_dirty_def

lemmas copy_eval =
  copy_helper_def copy_model_def zero_helper_def zero_model_def
  copy_env_def copy_step_def copy_obs_def start_def growing_def

lemmas loop_eval =
  try_model_def max_eps_def run_episode_def run_episode_loop.simps

section \<open>Reading a rule table\<close>

lemma first_true_spec:
  "first_true m fs i = Some (r, f) \<Longrightarrow>
     i \<le> r \<and> r < i + length fs \<and> f = fs ! (r - i) \<and> get_py_value m f \<and>
     (\<forall>j < r - i. \<not> get_py_value m (fs ! j))"
proof (induction fs arbitrary: i)
  case Nil
  then show ?case by simp
next
  case (Cons a fs)
  show ?case
  proof (cases "get_py_value m a")
    case True
    with Cons.prems show ?thesis by simp
  next
    case False
    with Cons.prems have ft: "first_true m fs (Suc i) = Some (r, f)" by simp
    from Cons.IH[OF ft] have ih: "Suc i \<le> r" "r < Suc i + length fs" "f = fs ! (r - Suc i)"
      "get_py_value m f" "\<forall>j < r - Suc i. \<not> get_py_value m (fs ! j)" by auto
    have "\<forall>j < r - i. \<not> get_py_value m ((a # fs) ! j)"
    proof (intro allI impI)
      fix j assume "j < r - i"
      show "\<not> get_py_value m ((a # fs) ! j)"
      proof (cases j)
        case 0 then show ?thesis using False by simp
      next
        case (Suc k)
        with \<open>j < r - i\<close> have "k < r - Suc i" by simp
        with ih(5) Suc show ?thesis by simp
      qed
    qed
    moreover have "f = (a # fs) ! (r - i)" using ih(1,3) by (simp add: Suc_diff_le)
    ultimately show ?thesis using ih by simp
  qed
qed

lemma map_of_rule_vars:
  "rule_vars sts chs name dm = Inr rs \<Longrightarrow>
   map_of rs k =
     (if k \<in> set (List.product sts chs) then Some (rule_val_for name dm k) else None)"
  by (auto simp: rule_vars_def map_of_map_restrict restrict_map_def split: if_splits)

lemma get_action_unfold:
  assumes "get_action h obs state = Inr ((dirno, do_write, to_write), h')"
  shows "\<exists>m dthing dform wthing writeno wform.
    model (solver h) = Some m \<and>
    map_of (direction_rules h) (state, obs) = Some dthing \<and>
    decode m dthing = Inr (dirno, dform) \<and>
    map_of (write_rules h) (state, obs) = Some wthing \<and>
    decode m wthing = Inr (writeno, wform) \<and>
    do_write = (if writeno = n_chars h then 0 else 1) \<and>
    to_write = min (int writeno) (int (n_chars h) - 1) \<and>
    h' = h\<lparr>dirty_buffer := {|dform|},
            dirty_variables := finsert wform (dirty_variables h |\<union>| dirty_buffer h)\<rparr>"
  using assms
  by (auto simp: get_action_def lookup_def flush_def Let_def
           split: sum.splits option.splits prod.splits if_splits)

lemma decode_rule_val_for_bound:
  assumes "decode m (rule_val_for name dm k) = Inr (ret, form)"
  shows "ret < length dm"
proof -
  consider "length dm = 2" | "length dm > 2" | "length dm < 2" by linarith
  then show ?thesis
  proof cases
    case 1
    with assms show ?thesis by (auto simp: rule_val_for_def Let_def split: if_splits)
  next
    case 2
    with assms obtain r f where
      "first_true m (map (\<lambda>output_val. Symbol (Sym name k (Some output_val))) dm) 0 = Some (r, f)"
      "ret = r"
      by (auto simp: rule_val_for_def split: option.splits)
    with first_true_spec[OF this(1)] show ?thesis by simp
  next
    case 3
    with assms show ?thesis by (simp add: rule_val_for_def)
  qed
qed

section \<open>The effect of steps, episodes and evaluations on the provenance\<close>

lemma collect_append: "collect f (xs @ ys) = collect f xs |\<union>| collect f ys"
  by (induction xs) auto

lemma lookup_unfold:
  assumes "lookup h rules obs state buff = Inr (ret, h')"
  shows "\<exists>m thing form. model (solver h) = Some m \<and> map_of rules (state, obs) = Some thing \<and>
           decode m thing = Inr (ret, form) \<and>
           literal (model (solver h)) rules (obs, state) = {|form|} \<and>
           h' = (if buff then h\<lparr>dirty_buffer := finsert form (dirty_buffer h)\<rparr>
                 else h\<lparr>dirty_variables := finsert form (dirty_variables h)\<rparr>)"
proof (cases "map_of rules (state, obs)")
  case None
  with assms show ?thesis by (simp add: lookup_def)
next
  case (Some thing)
  note th = this
  show ?thesis
  proof (cases "model (solver h)")
    case None
    with assms th show ?thesis by (simp add: lookup_def)
  next
    case (Some m)
    note mo = this
    show ?thesis
    proof (cases "decode m thing")
      case (Inl e)
      with assms th mo show ?thesis by (simp add: lookup_def)
    next
      case (Inr rf)
      obtain r form where rf: "rf = (r, form)" by (cases rf)
      from assms th mo Inr rf have "r = ret"
        and "h' = (if buff then h\<lparr>dirty_buffer := finsert form (dirty_buffer h)\<rparr>
                 else h\<lparr>dirty_variables := finsert form (dirty_variables h)\<rparr>)"
        by (simp_all add: lookup_def)
      moreover have "literal (model (solver h)) rules (obs, state) = {|form|}"
        using th mo Inr rf by (simp add: literal_def)
      ultimately show ?thesis using th mo Inr rf by simp
    qed
  qed
qed

lemma lookup_keeps:
  assumes "lookup h rules obs state buff = Inr (ret, h')"
  shows "solver h' = solver h" "write_rules h' = write_rules h"
    "direction_rules h' = direction_rules h" "state_rules h' = state_rules h"
    "n_states h' = n_states h" "n_chars h' = n_chars h" "n_dirs h' = n_dirs h"
proof -
  from lookup_unfold[OF assms] obtain form where
    "h' = (if buff then h\<lparr>dirty_buffer := finsert form (dirty_buffer h)\<rparr>
                 else h\<lparr>dirty_variables := finsert form (dirty_variables h)\<rparr>)" by blast
  then show "solver h' = solver h" "write_rules h' = write_rules h"
    "direction_rules h' = direction_rules h" "state_rules h' = state_rules h"
    "n_states h' = n_states h" "n_chars h' = n_chars h" "n_dirs h' = n_dirs h"
    by (cases buff; simp)+
qed

lemma flush_effect:
  "flush h = h\<lparr>dirty_variables := dirty_variables h |\<union>| dirty_buffer h, dirty_buffer := {||}\<rparr>"
  by (simp add: flush_def)

lemma get_action_effect:
  assumes ga: "get_action h obs state = Inr (a, h1)"
  shows "h1 = h\<lparr>dirty_buffer := direction_literal h (obs, state),
                dirty_variables := dirty_variables h |\<union>| dirty_buffer h |\<union>|
                                   write_literal h (obs, state)\<rparr> \<and>
         (\<exists>d. direction_literal h (obs, state) = {|d|}) \<and>
         (\<exists>w. write_literal h (obs, state) = {|w|})"
proof -
  let ?h0 = "flush h"
  from ga obtain dirno hd where l1: "lookup ?h0 (direction_rules ?h0) obs state True = Inr (dirno, hd)"
    by (auto simp: get_action_def Let_def split: sum.splits prod.splits)
  with ga obtain writeno where l2: "lookup hd (write_rules hd) obs state False = Inr (writeno, h1)"
    by (auto simp: get_action_def Let_def split: sum.splits prod.splits)
  from lookup_unfold[OF l1] obtain f1 where
    f1: "literal (model (solver ?h0)) (direction_rules ?h0) (obs, state) = {|f1|}"
        "hd = ?h0\<lparr>dirty_buffer := finsert f1 (dirty_buffer ?h0)\<rparr>" by auto
  from lookup_unfold[OF l2] obtain f2 where
    f2: "literal (model (solver hd)) (write_rules hd) (obs, state) = {|f2|}"
        "h1 = hd\<lparr>dirty_variables := finsert f2 (dirty_variables hd)\<rparr>" by auto
  have s0: "solver ?h0 = solver h" "direction_rules ?h0 = direction_rules h"
    "write_rules ?h0 = write_rules h"
    by (simp_all add: flush_effect)
  have e1: "direction_literal h (obs, state) = {|f1|}"
    using f1(1) s0 by (simp add: direction_literal_def)
  have "solver hd = solver h" "write_rules hd = write_rules h"
    using f1(2) s0 by simp_all
  then have e2: "write_literal h (obs, state) = {|f2|}"
    using f2(1) by (simp add: write_literal_def)
  have "h1 = h\<lparr>dirty_buffer := direction_literal h (obs, state),
                dirty_variables := dirty_variables h |\<union>| dirty_buffer h |\<union>|
                                   write_literal h (obs, state)\<rparr>"
    unfolding e1 e2 f2(2) f1(2) flush_effect by auto
  with e1 e2 show ?thesis by blast
qed

lemma get_state_effect:
  assumes gs: "get_state h1 obs state = Inr (s', h2)"
  shows "h2 = h1\<lparr>dirty_buffer := dirty_buffer h1 |\<union>| state_literal h1 (obs, state)\<rparr> \<and>
         (n_states h1 = 1 \<or> (\<exists>s. state_literal h1 (obs, state) = {|s|}))"
proof (cases "n_states h1 = 1")
  case True
  with gs show ?thesis by (simp add: get_state_def state_literal_def)
next
  case False
  with gs have l: "lookup h1 (state_rules h1) obs state True = Inr (s', h2)"
    by (simp add: get_state_def)
  from lookup_unfold[OF l] False show ?thesis by (auto simp: state_literal_def)
qed

lemma write_literal_upd [simp]:
  "write_literal (h\<lparr>dirty_buffer := b, dirty_variables := v\<rparr>) = write_literal h"
  by (rule ext) (simp add: write_literal_def)

lemma direction_literal_upd [simp]:
  "direction_literal (h\<lparr>dirty_buffer := b, dirty_variables := v\<rparr>) = direction_literal h"
  by (rule ext) (simp add: direction_literal_def)

lemma state_literal_upd [simp]:
  "state_literal (h\<lparr>dirty_buffer := b, dirty_variables := v\<rparr>) = state_literal h"
  by (rule ext) (simp add: state_literal_def)

lemma decision_pair_upd [simp]:
  "decision_pair (h\<lparr>dirty_buffer := b, dirty_variables := v\<rparr>) = decision_pair h"
  by (rule ext) (simp add: decision_pair_def)

lemma step_recorded_upd [simp]:
  "step_recorded (h\<lparr>dirty_buffer := b, dirty_variables := v\<rparr>) = step_recorded h"
  by (rule ext) (simp add: step_recorded_def)

lemma step_effect:
  assumes ga: "get_action h obs state = Inr (a, h1)"
      and gs: "get_state h1 obs state = Inr (s', h2)"
  shows "h2 = h\<lparr>dirty_buffer := decision_pair h (obs, state),
                dirty_variables := dirty_variables h |\<union>| dirty_buffer h |\<union>|
                                   write_literal h (obs, state)\<rparr> \<and>
         step_recorded h (obs, state)"
proof -
  from get_action_effect[OF ga] have
    a: "h1 = h\<lparr>dirty_buffer := direction_literal h (obs, state),
                dirty_variables := dirty_variables h |\<union>| dirty_buffer h |\<union>|
                                   write_literal h (obs, state)\<rparr>"
    and d: "\<exists>d. direction_literal h (obs, state) = {|d|}"
    and w: "\<exists>w. write_literal h (obs, state) = {|w|}" by blast+
  have k: "state_literal h1 = state_literal h" "n_states h1 = n_states h"
    by (subst a, simp)+
  have b: "dirty_buffer h1 = direction_literal h (obs, state)"
    by (subst a) simp
  from get_state_effect[OF gs] have
    g: "h2 = h1\<lparr>dirty_buffer := dirty_buffer h1 |\<union>| state_literal h1 (obs, state)\<rparr>"
    and s: "n_states h1 = 1 \<or> (\<exists>s. state_literal h1 (obs, state) = {|s|})" by blast+
  have "h2 = h\<lparr>dirty_buffer := decision_pair h (obs, state),
                dirty_variables := dirty_variables h |\<union>| dirty_buffer h |\<union>|
                                   write_literal h (obs, state)\<rparr>"
    using g a b k by (simp add: decision_pair_def)
  moreover have "step_recorded h (obs, state)"
    using d w s k by (simp add: step_recorded_def)
  ultimately show ?thesis by blast
qed

lemma after_steps_single:
  "h\<lparr>dirty_buffer := decision_pair h k,
      dirty_variables := dirty_variables h |\<union>| dirty_buffer h |\<union>| write_literal h k\<rparr>
   = after_steps h [k]"
  by (simp add: after_steps_def)

lemma after_steps_Cons:
  "ks \<noteq> [] \<Longrightarrow>
   after_steps (h\<lparr>dirty_buffer := decision_pair h k,
      dirty_variables := dirty_variables h |\<union>| dirty_buffer h |\<union>| write_literal h k\<rparr>) ks
   = after_steps h (k # ks)"
proof -
  assume "ks \<noteq> []"
  have "dirty_variables h |\<union>| dirty_buffer h |\<union>| write_literal h k |\<union>|
          decision_pair h k |\<union>| collect (write_literal h) ks |\<union>|
          collect (decision_pair h) (butlast ks)
        = dirty_variables h |\<union>| dirty_buffer h |\<union>|
          (write_literal h k |\<union>| collect (write_literal h) ks) |\<union>|
          (decision_pair h k |\<union>| collect (decision_pair h) (butlast ks))"
    by auto
  with \<open>ks \<noteq> []\<close> show ?thesis by (simp add: after_steps_def)
qed

lemma run_episode_loop_effect_aux:
  assumes "run_episode_loop env h es obs state tot vis = Some y"
  shows "\<forall>ep. y = Inr ep \<longrightarrow>
      (\<exists>ks. visited ep = vis @ (obs, state) # ks \<and>
            ep_helper ep = after_steps h ((obs, state) # ks) \<and>
            (\<forall>k \<in> set ((obs, state) # ks). step_recorded h k))"
proof (induction rule: run_episode_loop.raw_induct [OF _ assms])
  case (1 loop env h es obs state tot vis y)
  show ?case
  proof (intro allI impI)
    fix ep assume y: "y = Inr ep"
    from 1(2) y obtain a h1 where ga: "get_action h obs state = Inr (a, h1)"
      by (cases "get_action h obs state") auto
    from 1(2) y ga obtain s' h2 where gs: "get_state h1 obs state = Inr (s', h2)"
      by (cases "get_state h1 obs state") auto
    obtain obs' reward fin es' where st: "step env a es = ((obs', reward, fin), es')"
      by (metis prod_cases3 surj_pair)
    from step_effect[OF ga gs] have
      h2: "h2 = h\<lparr>dirty_buffer := decision_pair h (obs, state),
                dirty_variables := dirty_variables h |\<union>| dirty_buffer h |\<union>|
                                   write_literal h (obs, state)\<rparr>"
      and rec0: "step_recorded h (obs, state)" by blast+
    show "\<exists>ks. visited ep = vis @ (obs, state) # ks \<and>
            ep_helper ep = after_steps h ((obs, state) # ks) \<and>
            (\<forall>k \<in> set ((obs, state) # ks). step_recorded h k)"
    proof (cases fin)
      case True
      with 1(2) y ga gs st have "visited ep = vis @ [(obs, state)]" "ep_helper ep = h2"
        by auto
      then show ?thesis using h2 rec0 by (auto simp: after_steps_single)
    next
      case False
      with 1(2) y ga gs st
      have rec: "loop env h2 es' obs' s' (tot + reward) (vis @ [(obs, state)]) = Some (Inr ep)"
        by simp
      from 1(1)[OF rec] obtain ks where
        ks: "visited ep = (vis @ [(obs, state)]) @ (obs', s') # ks"
            "ep_helper ep = after_steps h2 ((obs', s') # ks)"
            "\<forall>k \<in> set ((obs', s') # ks). step_recorded h2 k" by blast
      have "after_steps h2 ((obs', s') # ks) = after_steps h ((obs, state) # (obs', s') # ks)"
        unfolding h2 by (rule after_steps_Cons) simp
      moreover have "step_recorded h2 = step_recorded h" unfolding h2 by simp
      ultimately show ?thesis using ks rec0
        by (intro exI[of _ "(obs', s') # ks"]) simp
    qed
  qed
qed

lemma run_episode_effect:
  assumes "run_episode env h es = Some (Inr ep)"
  shows "visited ep \<noteq> [] \<and> ep_helper ep = after_steps h (visited ep) \<and>
         (\<forall>k \<in> set (visited ep). step_recorded h k)"
proof -
  obtain obs es' where r: "reset env es = (obs, es')" by (cases "reset env es")
  with assms have "run_episode_loop env h es' obs 0 0 [] = Some (Inr ep)"
    by (simp add: run_episode_def)
  from run_episode_loop_effect_aux[OF this] show ?thesis by auto
qed

lemma clear_dirty_after_steps: "clear_dirty (after_steps h ks) = clear_dirty h"
  by (simp add: clear_dirty_def after_steps_def)

lemma clear_dirty_idem: "clear_dirty (clear_dirty h) = clear_dirty h"
  by (simp add: clear_dirty_def)

lemma last_episode_clear:
  "last_episode env (clear_dirty h) ev ep \<Longrightarrow> last_episode env h ev ep"
  unfolding last_episode_def clear_dirty_idem by blast

lemma try_model_loop_exit:
  "\<not> i < max_eps \<Longrightarrow>
   try_model_loop env h es i goodeps success reward vis =
     Some (Inr \<lparr>ev_i = i, ev_goodeps = goodeps, ev_success = success,
                 ev_reward = reward, ev_helper = h, ev_env = es, ev_visited = vis\<rparr>)"
  by (subst try_model_loop.simps) simp

lemma try_model_loop_effect:
  "try_model_loop env h es i goodeps success reward vis = Some (Inr ev) \<Longrightarrow> i < max_eps \<Longrightarrow>
   \<exists>ep. last_episode env h ev ep \<and> i < ev_i ev \<and> ev_i ev \<le> max_eps"
proof (induction env h es i goodeps success reward vis rule: try_model_loop.induct)
  case (1 env h es i goodeps success reward vis)
  note unf = try_model_loop.simps[of env h es i goodeps success reward vis]
  from "1.prems" obtain ep where ep: "run_episode env h es = Some (Inr ep)"
    by (cases "run_episode env h es") (auto simp: unf split: sum.splits)
  from run_episode_effect[OF ep] have eff: "ep_helper ep = after_steps h (visited ep)" by blast
  consider (fail) "\<not> ep_success ep"
    | (qual) "ep_success ep" "ep_total_reward ep \<ge> reward_threshold env"
    | (cont) "ep_success ep" "\<not> ep_total_reward ep \<ge> reward_threshold env" by blast
  then show ?case
  proof cases
    case fail
    with "1.prems" ep have "ev = \<lparr>ev_i = i + 1, ev_goodeps = goodeps,
                             ev_success = Some (ep_success ep),
                             ev_reward = Some (ep_total_reward ep), ev_helper = ep_helper ep,
                             ev_env = ep_env ep, ev_visited = visited ep\<rparr>"
      by (simp add: unf)
    with fail ep "1.prems"(2) show ?thesis
      by (intro exI[of _ ep]) (auto simp: last_episode_def)
  next
    case qual
    with "1.prems" ep have "ev = \<lparr>ev_i = i + 1, ev_goodeps = goodeps + 1,
                             ev_success = Some (ep_success ep),
                             ev_reward = Some (ep_total_reward ep), ev_helper = ep_helper ep,
                             ev_env = ep_env ep, ev_visited = visited ep\<rparr>"
      by (simp add: unf)
    with qual ep "1.prems"(2) show ?thesis
      by (intro exI[of _ ep]) (auto simp: last_episode_def)
  next
    case cont
    let ?h' = "clear_dirty (ep_helper ep)"
    have h': "?h' = clear_dirty h" using eff by (simp add: clear_dirty_after_steps)
    from cont "1.prems" ep
    have rec: "try_model_loop env ?h' (ep_env ep) (i + 1) (goodeps + 1)
                 (Some (ep_success ep)) (Some (ep_total_reward ep)) (visited ep) = Some (Inr ev)"
      by (simp add: unf)
    show ?thesis
    proof (cases "i + 1 < max_eps")
      case True
      from "1.IH"[OF "1.prems"(2) ep refl _ _ rec True] cont
      obtain ep' where "last_episode env ?h' ev ep'" "i + 1 < ev_i ev" "ev_i ev \<le> max_eps"
        by auto
      then show ?thesis using last_episode_clear[of env h ev ep'] h'
        by (intro exI[of _ ep']) auto
    next
      case False
      with rec have "ev = \<lparr>ev_i = i + 1, ev_goodeps = goodeps + 1,
                      ev_success = Some (ep_success ep),
                      ev_reward = Some (ep_total_reward ep), ev_helper = ?h',
                      ev_env = ep_env ep, ev_visited = visited ep\<rparr>"
        by (simp only: try_model_loop_exit[OF False]) simp
      moreover from False "1.prems"(2) have "i + 1 = max_eps" by simp
      ultimately show ?thesis using cont ep h'
        by (intro exI[of _ ep]) (auto simp: last_episode_def)
    qed
  qed
qed

lemma try_model_effect:
  assumes "try_model env h es = Some (Inr (ok, ev))"
  shows "\<exists>ep. last_episode env h ev ep \<and> 1 \<le> ev_i ev \<and> ev_i ev \<le> max_eps \<and>
              ok = (ep_total_reward ep \<ge> reward_threshold env)"
proof -
  from assms obtain ev0 where l: "try_model_loop env h es 0 0 None None [] = Some (Inr ev0)"
    by (auto simp: try_model_def split: option.splits sum.splits)
  have "0 < max_eps" by (simp add: max_eps_def)
  from try_model_loop_effect[OF l this] obtain ep where
    ep: "last_episode env h ev0 ep" "0 < ev_i ev0" "ev_i ev0 \<le> max_eps" by blast
  then have r: "ev_reward ev0 = Some (ep_total_reward ep)" by (simp add: last_episode_def)
  with assms l have "ev = ev0" "ok = (ep_total_reward ep \<ge> reward_threshold env)"
    by (auto simp: try_model_def split: if_splits)
  with ep show ?thesis by (intro exI[of _ ep]) auto
qed


lemma after_steps_clean:
  assumes "dirty_variables h = {||}" "dirty_buffer h = {||}"
  shows "dirty_variables (after_steps h ks) =
           collect (write_literal h) ks |\<union>| collect (decision_pair h) (butlast ks)"
    and "dirty_buffer (after_steps h ks) = decision_pair h (last ks)"
    and "solver (after_steps h ks) = solver h"
  using assms by (simp_all add: after_steps_def)



lemma resolve_assertions:
  "resolve be h = (r, h') \<Longrightarrow>
   assertions (solver h') =
     (if dirty_variables h \<noteq> {||}
      then assertions (solver h) @ [Not_f (And_f (dirty_variables h))]
      else assertions (solver h))"
  by (cases "dirty_variables h = {||}") (auto simp: resolve_def Let_def)





lemma zero_helper_clean:
  "dirty_variables zero_helper = {||}" "dirty_buffer zero_helper = {||}"
  by (simp_all add: helper_eval copy_eval)


lemma zero_lits:
  "collect (write_literal zero_helper) [(0, 0), (1, 1)] |\<union>|
   collect (decision_pair zero_helper) (butlast [(0, 0), (1, 1)]) =
   {|Symbol (Sym ''write_rule'' (0, 0) (Some 0)), Symbol (Sym ''write_rule'' (1, 1) (Some 0)),
     Symbol (Sym ''dir_rule'' (0, 0) None), Symbol (Sym ''state_rule'' (0, 0) None)|}"
  by (auto simp add: write_literal_def decision_pair_def direction_literal_def
        state_literal_def literal_def helper_eval copy_eval)

lemma zero_pair:
  "decision_pair zero_helper (last [(0, 0), (1, 1)]) =
   {|Symbol (Sym ''dir_rule'' (1, 1) None), Symbol (Sym ''state_rule'' (1, 1) None)|}"
  by (auto simp add: decision_pair_def direction_literal_def
        state_literal_def literal_def helper_eval copy_eval)

section \<open>The effect of the refinement loop on the solver session\<close>

lemma only_dirty_after_steps: "only_dirty_differs h (after_steps h ks)"
  by (simp add: only_dirty_differs_def after_steps_def)

lemma only_dirty_clear: "only_dirty_differs h (clear_dirty h)"
  by (simp add: only_dirty_differs_def clear_dirty_def)

lemma only_dirty_trans:
  "only_dirty_differs h h1 \<Longrightarrow> only_dirty_differs h1 h2 \<Longrightarrow> only_dirty_differs h h2"
  unfolding only_dirty_differs_def
  by (metis (no_types, lifting) helper.surjective helper.update_convs(8,9))

lemma only_dirty_solver: "only_dirty_differs h h' \<Longrightarrow> solver h' = solver h"
  unfolding only_dirty_differs_def by (metis helper.select_convs(1) helper.surjective helper.update_convs(8,9))

lemma try_model_only_dirty:
  assumes "try_model env h es = Some (Inr (ok, ev))"
  shows "only_dirty_differs h (ev_helper ev)"
proof -
  from try_model_effect[OF assms] obtain ep where le: "last_episode env h ev ep" by blast
  then obtain hk esk where hk: "hk = h \<or> hk = clear_dirty h"
    and run: "run_episode env hk esk = Some (Inr ep)"
    and eh: "ev_helper ev = clear_dirty h \<or> ev_helper ev = ep_helper ep"
    unfolding last_episode_def by metis
  from run_episode_effect[OF run] have "ep_helper ep = after_steps hk (visited ep)" by blast
  then have "only_dirty_differs hk (ep_helper ep)" by (simp add: only_dirty_after_steps)
  moreover have "only_dirty_differs h hk"
    using hk only_dirty_clear[of h] by (auto simp: only_dirty_differs_def)
  ultimately have "only_dirty_differs h (ep_helper ep)" by (rule only_dirty_trans[rotated])
  with eh only_dirty_clear[of h] show ?thesis by auto
qed

lemma resolve_outcome:
  "resolve be h = (r, h') \<Longrightarrow>
   model (solver h') = be (assertions (solver h')) \<and>
   r = (if be (assertions (solver h')) = None then Inl UnsatException else Inr ()) \<and>
   dirty_variables h' = {||} \<and> dirty_buffer h' = {||}"
  by (cases "dirty_variables h = {||}") (auto simp: resolve_def Let_def)

lemma solve_loop_effect:
  assumes "solve_loop env be maxiters h es i = Some y"
  shows "\<forall>out. y = Inr out \<longrightarrow>
    (\<exists>ys. assertions (solver (out_helper out)) = assertions (solver h) @ ys) \<and>
    i \<le> iterations out \<and>
    (returned out \<longleftrightarrow> exit_at out = Solved) \<and>
    (exit_at out = Used_up_iterations \<longrightarrow> \<not> enat (iterations out) < maxiters) \<and>
    (exit_at out = Exhausted_possibilities \<longrightarrow>
       be (assertions (solver (out_helper out))) = None)"
proof (induction rule: solve_loop.raw_induct [OF _ assms])
  case (1 loop env be maxiters h es i y)
  show ?case
  proof (intro allI impI)
    fix out assume y: "y = Inr out"
    let ?G = "(\<exists>ys. assertions (solver (out_helper out)) = assertions (solver h) @ ys) \<and>
      i \<le> iterations out \<and>
      (returned out \<longleftrightarrow> exit_at out = Solved) \<and>
      (exit_at out = Used_up_iterations \<longrightarrow> \<not> enat (iterations out) < maxiters) \<and>
      (exit_at out = Exhausted_possibilities \<longrightarrow>
         be (assertions (solver (out_helper out))) = None)"
    show ?G
    proof (cases "enat i < maxiters")
      case False
      with 1(2) y have "out = \<lparr>returned = False, exit_at = Used_up_iterations, iterations = i,
                      out_helper = h, out_env = es\<rparr>" by simp
      with False show ?thesis by simp
    next
      case True
      obtain r h1 where rs: "resolve be h = (r, h1)" by (cases "resolve be h")
      from resolve_assertions[OF rs] obtain zs where
        zs: "assertions (solver h1) = assertions (solver h) @ zs" by (auto split: if_splits)
      note ro = resolve_outcome[OF rs]
      show ?thesis
      proof (cases r)
        case (Inl e)
        with ro have e: "e = UnsatException" "be (assertions (solver h1)) = None"
          by (auto split: if_splits)
        with 1(2) y True rs Inl
        have "out = \<lparr>returned = False, exit_at = Exhausted_possibilities,
                             iterations = i + 1, out_helper = h1, out_env = es\<rparr>" by simp
        with zs e show ?thesis by simp
      next
        case (Inr u)
        with 1(2) y True rs obtain ok ev where
          tm: "try_model env h1 es = Some (Inr (ok, ev))"
          by (cases "try_model env h1 es") (auto split: sum.splits)
        from only_dirty_solver[OF try_model_only_dirty[OF tm]]
        have so: "solver (ev_helper ev) = solver h1" .
        show ?thesis
        proof (cases ok)
          case True
          with 1(2) y \<open>enat i < maxiters\<close> rs Inr tm
          have "out = \<lparr>returned = True, exit_at = Solved, iterations = i + 1,
                                  out_helper = ev_helper ev, out_env = ev_env ev\<rparr>" by simp
          with zs so show ?thesis by simp
        next
          case False
          with 1(2) y \<open>enat i < maxiters\<close> rs Inr tm
          have "loop env be maxiters (ev_helper ev) (ev_env ev) (i + 1) = Some (Inr out)"
            by simp
          from 1(1)[OF this] so zs show ?thesis by auto
        qed
      qed
    qed
  qed
qed

lemma nogood_semantics:
  "get_py_value m (Not_f (And_f D)) \<longleftrightarrow> (\<exists>l. l |\<in>| D \<and> \<not> get_py_value m l)"
  by auto

lemma solve_loop_after_resolve:
  assumes budget: "enat i < maxiters"
      and sl: "solve_loop env be maxiters h es i = Some (Inr out)"
  shows "\<exists>ys. assertions (solver (out_helper out)) =
               assertions (solver (snd (resolve be h))) @ ys"
proof -
  obtain r h1 where rs: "resolve be h = (r, h1)" by (cases "resolve be h")
  note unf = solve_loop.simps[of env be maxiters h es i]
  show ?thesis
  proof (cases r)
    case (Inl e)
    with sl budget rs have "out_helper out = h1"
      by (auto simp: unf split: if_splits)
    with rs show ?thesis by simp
  next
    case (Inr u)
    with sl budget rs obtain ok ev where
      tm: "try_model env h1 es = Some (Inr (ok, ev))"
      by (cases "try_model env h1 es") (auto simp: unf split: sum.splits)
    from only_dirty_solver[OF try_model_only_dirty[OF tm]]
    have so: "solver (ev_helper ev) = solver h1" .
    show ?thesis
    proof (cases ok)
      case True
      with sl budget rs Inr tm have "out_helper out = ev_helper ev" by (auto simp: unf)
      with so rs show ?thesis by simp
    next
      case False
      with sl budget rs Inr tm
      have "solve_loop env be maxiters (ev_helper ev) (ev_env ev) (i + 1) = Some (Inr out)"
        by (simp add: unf)
      from solve_loop_effect[OF this] so rs show ?thesis by simp
    qed
  qed
qed

section \<open>Runs of the concrete instances\<close>


lemma failed_helper_dirty:
  "dirty_variables failed_helper =
   {|Symbol (Sym ''write_rule'' (0, 0) (Some 0)), Symbol (Sym ''write_rule'' (1, 1) (Some 0)),
     Symbol (Sym ''dir_rule'' (0, 0) None), Symbol (Sym ''state_rule'' (0, 0) None)|}"
  unfolding failed_helper_def after_steps_clean(1)[OF zero_helper_clean] zero_lits ..

lemma solve_budget:
  "\<exists>h es. solve (copy_env 2 growing 10 2 1) (\<lambda>as. Some zero_model) 1
        (projr (helper_init 2 2 2)) start =
      Some (Inr \<lparr>returned = False, exit_at = Used_up_iterations, iterations = 1,
                  out_helper = h, out_env = es\<rparr>)"
  by (simp add: solve_def solve_loop.simps loop_eval try_model_loop.simps[of _ _ _ 0]
        try_model_loop.simps[of _ _ _ "Suc 0"] helper_eval policy_eval copy_eval one_enat_def zero_enat_def)

lemma solve_unsat:
  "\<exists>h es. solve (copy_env 2 growing 10 2 1) (\<lambda>as. None) \<infinity>
        (projr (helper_init 2 2 2)) start =
      Some (Inr \<lparr>returned = False, exit_at = Exhausted_possibilities, iterations = 1,
                  out_helper = h, out_env = es\<rparr>)"
  by (simp add: solve_def solve_loop.simps helper_eval zero_enat_def)

lemma failed_helper_eq:
  "failed_helper = zero_helper\<lparr>dirty_buffer :=
       {|Symbol (Sym ''dir_rule'' (1, 1) None), Symbol (Sym ''state_rule'' (1, 1) None)|},
     dirty_variables :=
   {|Symbol (Sym ''write_rule'' (0, 0) (Some 0)), Symbol (Sym ''write_rule'' (1, 1) (Some 0)),
     Symbol (Sym ''dir_rule'' (0, 0) None), Symbol (Sym ''state_rule'' (0, 0) None)|}\<rparr>"
proof -
  have "failed_helper = zero_helper\<lparr>dirty_buffer := decision_pair zero_helper (last [(0, 0), (1, 1)]),
       dirty_variables := collect (write_literal zero_helper) [(0, 0), (1, 1)] |\<union>|
   collect (decision_pair zero_helper) (butlast [(0, 0), (1, 1)])\<rparr>"
    unfolding failed_helper_def after_steps_def zero_helper_clean by simp
  then show ?thesis unfolding zero_lits zero_pair .
qed

lemma solve_learns:
  "\<exists>h es. solve_loop (copy_env 2 growing 10 2 1) (try_models [zero_model, copy_model]) \<infinity>
        failed_helper failed_state 1 =
      Some (Inr \<lparr>returned = True, exit_at = Solved, iterations = 2,
                  out_helper = h, out_env = es\<rparr>)"
  unfolding failed_helper_eq
  by (simp add: solve_loop.simps loop_eval try_model_loop.simps[of _ _ _ 0]
        try_models_def failed_state_def
        helper_eval policy_eval copy_eval)

section \<open>When an evaluation succeeds\<close>




section \<open>The nogood learned from a failed episode\<close>




section \<open>The nogood in the constraint model\<close>

text \<open>
  Claim C3. When an iteration of the loop starts with a non-empty provenance set,
  \<^verbatim>\<open>resolve\<close> appends to the assertions the negated conjunction of the set. An
  assignment satisfies that formula exactly when it makes some literal of the set false.
  Assertions are only ever appended, so the formula is still asserted when the run ends,
  and every assignment that satisfies the final assertions makes some literal of the set
  false.
\<close>

theorem nogood_asserted_and_kept:
  assumes dirty: "dirty_variables h \<noteq> {||}"
      and budget: "enat i < maxiters"
      and sl: "solve_loop env be maxiters h es i = Some (Inr out)"
  shows "assertions (solver (snd (resolve be h))) =
           assertions (solver h) @ [Not_f (And_f (dirty_variables h))] \<and>
         (\<forall>m. get_py_value m (Not_f (And_f (dirty_variables h))) \<longleftrightarrow>
                (\<exists>l. l |\<in>| dirty_variables h \<and> \<not> get_py_value m l)) \<and>
         (\<exists>ys. assertions (solver (out_helper out)) =
                  assertions (solver h) @ [Not_f (And_f (dirty_variables h))] @ ys) \<and>
         (\<forall>m. (\<forall>f \<in> set (assertions (solver (out_helper out))). get_py_value m f) \<longrightarrow>
                (\<exists>l. l |\<in>| dirty_variables h \<and> \<not> get_py_value m l))"
proof -
  let ?N = "Not_f (And_f (dirty_variables h))"
  obtain r h1 where rs: "resolve be h = (r, h1)" by (cases "resolve be h")
  from resolve_assertions[OF rs] dirty
  have a: "assertions (solver h1) = assertions (solver h) @ [?N]" by simp
  from solve_loop_after_resolve[OF budget sl] rs a obtain ys where
    ys: "assertions (solver (out_helper out)) = assertions (solver h) @ [?N] @ ys" by auto
  have sem: "\<forall>m. get_py_value m ?N \<longleftrightarrow> (\<exists>l. l |\<in>| dirty_variables h \<and> \<not> get_py_value m l)"
    using nogood_semantics by blast
  have "\<forall>m. (\<forall>f \<in> set (assertions (solver (out_helper out))). get_py_value m f) \<longrightarrow>
                (\<exists>l. l |\<in>| dirty_variables h \<and> \<not> get_py_value m l)"
  proof (intro allI impI)
    fix m assume "\<forall>f \<in> set (assertions (solver (out_helper out))). get_py_value m f"
    with ys have "get_py_value m ?N" by simp
    with sem show "\<exists>l. l |\<in>| dirty_variables h \<and> \<not> get_py_value m l" by blast
  qed
  with a rs ys sem show ?thesis by simp
qed

theorem nogood_asserted_and_kept_witness:
  "dirty_variables failed_helper \<noteq> {||} \<and> enat 1 < \<infinity> \<and>
   (\<exists>out. solve_loop (copy_env 2 growing 10 2 1) (try_models [zero_model, copy_model]) \<infinity>
             failed_helper failed_state 1 = Some (Inr out) \<and>
      exit_at out = Solved \<and>
      assertions (solver (snd (resolve (try_models [zero_model, copy_model]) failed_helper))) =
        assertions (solver failed_helper) @ [Not_f (And_f (dirty_variables failed_helper))] \<and>
      (\<exists>ys. assertions (solver (out_helper out)) =
               assertions (solver failed_helper) @
               [Not_f (And_f (dirty_variables failed_helper))] @ ys) \<and>
      (\<forall>m. (\<forall>f \<in> set (assertions (solver (out_helper out))). get_py_value m f) \<longrightarrow>
             (\<exists>l. l |\<in>| dirty_variables failed_helper \<and> \<not> get_py_value m l)))"
proof -
  have d: "dirty_variables failed_helper \<noteq> {||}" by (simp add: failed_helper_dirty)
  have b: "enat 1 < \<infinity>" by simp
  from solve_learns obtain h es where
    sl: "solve_loop (copy_env 2 growing 10 2 1) (try_models [zero_model, copy_model]) \<infinity>
        failed_helper failed_state 1 =
      Some (Inr \<lparr>returned = True, exit_at = Solved, iterations = 2,
                  out_helper = h, out_env = es\<rparr>)" by blast
  from nogood_asserted_and_kept[OF d b sl] d b sl show ?thesis by simp
qed

section \<open>Running out of iterations\<close>

text \<open>
  Claim C5, as stated, makes the outcome of an exhausted budget distinguishable from
  exhaustion of the search space. \<^verbatim>\<open>solve\<close> returns \<^verbatim>\<open>False\<close> from both places: a run
  that uses up its one iteration and a run whose backend reports unsatisfiable give the
  caller the same value.
\<close>

theorem aborted_same_as_exhausted_counterexample:
  "map_option (map_sum id (\<lambda>out. (returned out, exit_at out)))
     (solve (copy_env 2 growing 10 2 1) (\<lambda>as. Some zero_model) 1
        (projr (helper_init 2 2 2)) start)
     = Some (Inr (False, Used_up_iterations)) \<and>
   map_option (map_sum id (\<lambda>out. (returned out, exit_at out)))
     (solve (copy_env 2 growing 10 2 1) (\<lambda>as. None) \<infinity>
        (projr (helper_init 2 2 2)) start)
     = Some (Inr (False, Exhausted_possibilities))"
proof -
  from solve_budget obtain h es where
    "solve (copy_env 2 growing 10 2 1) (\<lambda>as. Some zero_model) 1
        (projr (helper_init 2 2 2)) start =
      Some (Inr \<lparr>returned = False, exit_at = Used_up_iterations, iterations = 1,
                  out_helper = h, out_env = es\<rparr>)" by blast
  moreover from solve_unsat obtain h' es' where
    "solve (copy_env 2 growing 10 2 1) (\<lambda>as. None) \<infinity>
        (projr (helper_init 2 2 2)) start =
      Some (Inr \<lparr>returned = False, exit_at = Exhausted_possibilities, iterations = 1,
                  out_helper = h', out_env = es'\<rparr>)" by blast
  ultimately show ?thesis by simp
qed

text \<open>
  Claim C5, amended. When the iteration budget is used up the loop terminates and returns
  \<^verbatim>\<open>False\<close>, the value it also returns when the possibilities are exhausted; only
  \<^verbatim>\<open>True\<close> tells the caller which return was reached.
\<close>

theorem budget_exhausted_returns_false:
  assumes "solve env be maxiters h es = Some (Inr out)"
  shows "(exit_at out = Used_up_iterations \<longrightarrow>
            \<not> returned out \<and> \<not> enat (iterations out) < maxiters) \<and>
         (exit_at out = Exhausted_possibilities \<longrightarrow> \<not> returned out) \<and>
         (returned out \<longleftrightarrow> exit_at out = Solved) \<and>
         (\<forall>h' es' i. \<not> enat i < maxiters \<longrightarrow>
            solve_loop env be maxiters h' es' i =
              Some (Inr \<lparr>returned = False, exit_at = Used_up_iterations, iterations = i,
                          out_helper = h', out_env = es'\<rparr>))"
proof -
  from assms have "solve_loop env be maxiters h es 0 = Some (Inr out)" by (simp add: solve_def)
  from solve_loop_effect[OF this] have
    "(returned out \<longleftrightarrow> exit_at out = Solved)"
    "(exit_at out = Used_up_iterations \<longrightarrow> \<not> enat (iterations out) < maxiters)" by blast+
  moreover have "\<forall>h' es' i. \<not> enat i < maxiters \<longrightarrow>
            solve_loop env be maxiters h' es' i =
              Some (Inr \<lparr>returned = False, exit_at = Used_up_iterations, iterations = i,
                          out_helper = h', out_env = es'\<rparr>)"
    by (simp add: solve_loop.simps)
  ultimately show ?thesis by auto
qed

theorem budget_exhausted_returns_false_witness:
  "\<exists>out. solve (copy_env 2 growing 10 2 1) (\<lambda>as. Some zero_model) 1
        (projr (helper_init 2 2 2)) start = Some (Inr out) \<and>
     exit_at out = Used_up_iterations \<and> \<not> returned out \<and> \<not> enat (iterations out) < 1"
proof -
  from solve_budget obtain h es where
    s: "solve (copy_env 2 growing 10 2 1) (\<lambda>as. Some zero_model) 1
        (projr (helper_init 2 2 2)) start =
      Some (Inr \<lparr>returned = False, exit_at = Used_up_iterations, iterations = 1,
                  out_helper = h, out_env = es\<rparr>)" by blast
  from budget_exhausted_returns_false[OF s] s show ?thesis by simp
qed

section \<open>An unsatisfiable constraint model\<close>

text \<open>
  Claim C6, as stated, has the unsatisfiable outcome returned as a value and not thrown.
  \<^verbatim>\<open>resolve\<close> raises \<^verbatim>\<open>UnsatException\<close>: its outcome is the exception.
\<close>

theorem unsat_is_raised_counterexample:
  "fst (resolve (\<lambda>as. None) (projr (helper_init 2 2 2))) = Inl UnsatException"
  by (simp add: resolve_def Let_def)

text \<open>
  Claim C6, amended. When the backend finds no satisfying assignment for the assertions,
  \<^verbatim>\<open>resolve\<close> raises \<^verbatim>\<open>UnsatException\<close>; \<^verbatim>\<open>solve\<close> catches it, and the loop
  terminates at once, returning \<^verbatim>\<open>False\<close> from the place that logs exhaustion. No
  exception leaves \<^verbatim>\<open>solve\<close>.
\<close>

theorem unsat_raised_and_caught:
  assumes unsat: "be (assertions (solver (snd (resolve be h)))) = None"
      and budget: "enat i < maxiters"
  shows "fst (resolve be h) = Inl UnsatException \<and>
         solve_loop env be maxiters h es i =
           Some (Inr \<lparr>returned = False, exit_at = Exhausted_possibilities,
                       iterations = i + 1, out_helper = snd (resolve be h), out_env = es\<rparr>)"
proof -
  obtain r h1 where rs: "resolve be h = (r, h1)" by (cases "resolve be h")
  from resolve_outcome[OF rs] unsat rs have r: "r = Inl UnsatException" by simp
  with rs budget show ?thesis by (simp add: solve_loop.simps[of env be maxiters h es i])
qed

theorem unsat_raised_and_caught_witness:
  "(\<lambda>as. None) (assertions (solver (snd (resolve (\<lambda>as. None) (projr (helper_init 2 2 2))))))
     = (None :: assignment option) \<and> enat 0 < \<infinity> \<and>
   fst (resolve (\<lambda>as. None) (projr (helper_init 2 2 2))) = Inl UnsatException \<and>
   solve_loop (copy_env 2 growing 10 2 1) (\<lambda>as. None) \<infinity> (projr (helper_init 2 2 2)) start 0 =
     Some (Inr \<lparr>returned = False, exit_at = Exhausted_possibilities, iterations = 0 + 1,
                 out_helper = snd (resolve (\<lambda>as. None) (projr (helper_init 2 2 2))),
                 out_env = start\<rparr>)"
  using unsat_raised_and_caught[of "\<lambda>as. None" "projr (helper_init 2 2 2)" 0 \<infinity>
          "copy_env 2 growing 10 2 1" start]
  by simp

section \<open>The pending buffer and the provenance set during an evaluation\<close>



section \<open>The write flag of an action\<close>

text \<open>
  Claim C9. When the write rules are the table that \<^verbatim>\<open>_rule_vars\<close> builds over the
  characters plus the extra "don't write" value, an action returned by \<^verbatim>\<open>get_action\<close>
  has write flag 0 exactly when the value decoded from the write rule of (state, obs) is
  \<open>n_chars\<close>, and then the symbol is \<open>n_chars - 1\<close>; otherwise the write flag is 1 and
  the symbol is the decoded value, which is below \<open>n_chars\<close>.
\<close>

theorem get_action_write_flag:
  assumes wr: "rule_vars sts chs ''write_rule'' (chars_plus h) = Inr (write_rules h)"
      and ga: "get_action h obs state = Inr ((dirno, do_write, to_write), h')"
  shows "\<exists>m thing writeno form.
           model (solver h) = Some m \<and> map_of (write_rules h) (state, obs) = Some thing \<and>
           decode m thing = Inr (writeno, form) \<and>
           (do_write = 0 \<longleftrightarrow> writeno = n_chars h) \<and>
           (writeno = n_chars h \<longrightarrow> to_write = int (n_chars h) - 1) \<and>
           (writeno \<noteq> n_chars h \<longrightarrow>
              do_write = 1 \<and> to_write = int writeno \<and> writeno < n_chars h)"
proof -
  from get_action_unfold[OF ga] obtain m wthing writeno wform where u:
    "model (solver h) = Some m"
    "map_of (write_rules h) (state, obs) = Some wthing"
    "decode m wthing = Inr (writeno, wform)"
    "do_write = (if writeno = n_chars h then 0 else 1)"
    "to_write = min (int writeno) (int (n_chars h) - 1)"
    by blast
  from map_of_rule_vars[OF wr, of "(state, obs)"] u(2)
  have "wthing = rule_val_for ''write_rule'' (chars_plus h) (state, obs)"
    by (simp split: if_splits)
  with u(3) have "writeno < length (chars_plus h)"
    using decode_rule_val_for_bound by blast
  then have le: "writeno \<le> n_chars h" by (simp add: chars_plus_def)
  have "(do_write = 0 \<longleftrightarrow> writeno = n_chars h)" using u(4) by simp
  moreover have "writeno = n_chars h \<longrightarrow> to_write = int (n_chars h) - 1" using u(5) by simp
  moreover have "writeno \<noteq> n_chars h \<longrightarrow>
      do_write = 1 \<and> to_write = int writeno \<and> writeno < n_chars h"
    using u(4,5) le by auto
  ultimately show ?thesis using u(1,2,3)
    by (intro exI[of _ m] exI[of _ wthing] exI[of _ writeno] exI[of _ wform]) simp
qed

theorem get_action_write_flag_witness:
  "rule_vars [0..<1] [0..<3] ''write_rule'' (chars_plus copy_helper)
     = Inr (write_rules copy_helper) \<and>
   (\<exists>h'. get_action copy_helper 2 0 = Inr ((1, 0, 1), h')) \<and>
   (\<exists>m thing writeno form.
      model (solver copy_helper) = Some m \<and>
      map_of (write_rules copy_helper) (0, 2) = Some thing \<and>
      decode m thing = Inr (writeno, form) \<and>
      ((0::nat) = 0 \<longleftrightarrow> writeno = n_chars copy_helper) \<and>
      (writeno = n_chars copy_helper \<longrightarrow> (1::int) = int (n_chars copy_helper) - 1) \<and>
      (writeno \<noteq> n_chars copy_helper \<longrightarrow>
         (0::nat) = 1 \<and> (1::int) = int writeno \<and> writeno < n_chars copy_helper))"
proof -
  have wr: "rule_vars [0..<1] [0..<3] ''write_rule'' (chars_plus copy_helper)
              = Inr (write_rules copy_helper)"
    by (simp add: helper_eval copy_eval)
  have "\<exists>h'. get_action copy_helper 2 0 = Inr ((1, 0, 1), h')"
    by (simp add: helper_eval policy_eval copy_eval)
  then obtain h' where ga: "get_action copy_helper 2 0 = Inr ((1, 0, 1), h')" ..
  from get_action_write_flag[OF wr ga] wr ga show ?thesis by blast
qed

end
